theory Spec2Isabelle
  imports Complex_Main "HOL-Library.Sublist" "HOL-Library.Multiset"
begin

section \<open>Data model of the orchestration engine\<close>

text \<open>
  The scheduler of \<^verbatim>\<open>orchestrationengine.py\<close> as a shallow embedding.
  The object \<^verbatim>\<open>self\<close> becomes a record that every method takes and returns; a
  raised exception is a value that carries the state mutated so far, since Python
  does not roll back the mutations made before a \<^verbatim>\<open>raise\<close>.
\<close>

subsection \<open>Exceptions\<close>

text \<open>
  The exceptions a call can end with. \<^verbatim>\<open>except Exception\<close> catches every class
  but the ones derived from \<^verbatim>\<open>BaseException\<close> directly, of which
  \<^verbatim>\<open>KeyboardInterrupt\<close> stands for all.
\<close>

datatype exn =
    TypeError string
  | ZeroDivisionError
  | RuntimeError string
  | KeyboardInterrupt

fun is_Exception :: "exn \<Rightarrow> bool" where
  "is_Exception KeyboardInterrupt = False"
| "is_Exception _ = True"

subsection \<open>Components\<close>

text \<open>
  An instance of a subclass of \<^verbatim>\<open>BaseEngine\<close>: its object identity and the two
  class attributes \<^verbatim>\<open>name\<close> and \<^verbatim>\<open>priority\<close>. Two distinct objects may carry
  the same name. \<^verbatim>\<open>register_engine\<close> accepts any Python object, so its argument
  is either an engine or something else.
\<close>

record engine =
  ident :: nat
  name :: string
  priority :: int

datatype pyobject = EngineObject engine | OtherObject

subsection \<open>World state and scheduler\<close>

text \<open>
  The values stored under \<^verbatim>\<open>Any\<close>, as far as the examples need them, and the
  dictionary \<^verbatim>\<open>world_state\<close> with its five keys. Python floats are read as reals;
  the tick counter is an unbounded Python integer.
\<close>

datatype pyval = PyNone | PyInt int | PyStr string | PyList "pyval list"

record world_state =
  time :: real
  tick :: int
  entities :: "(string \<times> pyval) list"
  events :: "pyval list"
  meta :: "(string \<times> pyval) list"

datatype hook_kind = OnRegister | Step | OnShutdown

text \<open>
  The attributes of \<^verbatim>\<open>OrchestrationEngine\<close>. The field \<open>calls\<close> is not in the
  source: it is a ghost log of the hook invocations the scheduler has made, in order,
  kept to state how often and in which order hooks run.
\<close>

record orch =
  tick_rate :: real
  tick_duration :: real
  strict :: bool
  engines :: "engine list"
  running :: bool
  world_state :: world_state
  calls :: "(hook_kind \<times> engine) list"

text \<open>How a call ends: it returns, or it raises; either way the state is what it is.\<close>

datatype outcome = Returned orch | Raised exn orch

fun state_of :: "outcome \<Rightarrow> orch" where
  "state_of (Returned s) = s"
| "state_of (Raised x s) = s"

fun raised :: "outcome \<Rightarrow> exn option" where
  "raised (Returned s) = None"
| "raised (Raised x s) = Some x"

text \<open>
  The three abstract methods of \<^verbatim>\<open>BaseEngine\<close> are the program's parameters:
  what a component does when a hook is called. A hook is handed the world state, and a
  component may hold a reference to the scheduler as well, so a hook is any function of
  the scheduler's state that returns or raises. \<^verbatim>\<open>step\<close> takes \<^verbatim>\<open>delta_time\<close> too.
\<close>

record hooks =
  on_register :: "engine \<Rightarrow> orch \<Rightarrow> outcome"
  step :: "engine \<Rightarrow> real \<Rightarrow> orch \<Rightarrow> outcome"
  on_shutdown :: "engine \<Rightarrow> orch \<Rightarrow> outcome"

fun hook_body :: "hooks \<Rightarrow> hook_kind \<Rightarrow> engine \<Rightarrow> orch \<Rightarrow> outcome" where
  "hook_body hooks OnRegister e s = on_register hooks e s"
| "hook_body hooks Step e s = step hooks e (tick_duration s) s"
| "hook_body hooks OnShutdown e s = on_shutdown hooks e s"

text \<open>
  A hook invocation by the scheduler: the call is noted in the ghost log, then the hook
  runs. Calls that the hook itself makes into the scheduler are logged after it.
\<close>

definition invoke :: "hooks \<Rightarrow> hook_kind \<Rightarrow> engine \<Rightarrow> orch \<Rightarrow> outcome" where
  "invoke hooks k e s = hook_body hooks k e (s\<lparr>calls := calls s @ [(k, e)]\<rparr>)"

section \<open>The methods of the scheduler\<close>

text \<open>
  \<^verbatim>\<open>__init__\<close>: \<^verbatim>\<open>1.0 / tick_rate\<close> raises \<^verbatim>\<open>ZeroDivisionError\<close> for a zero rate.
\<close>

definition initial_state :: "real \<Rightarrow> bool \<Rightarrow> orch" where
  "initial_state rate strict_mode =
     \<lparr>tick_rate = rate, tick_duration = 1 / rate, strict = strict_mode,
      engines = [], running = False,
      world_state = \<lparr>time = 0, tick = 0, entities = [], events = [], meta = []\<rparr>,
      calls = []\<rparr>"

definition OrchestrationEngine :: "real \<Rightarrow> bool \<Rightarrow> exn + orch" where
  "OrchestrationEngine rate strict_mode =
     (if rate = 0 then Inl ZeroDivisionError else Inr (initial_state rate strict_mode))"

text \<open>\<^verbatim>\<open>unregister_engine\<close>: rebinds \<^verbatim>\<open>self.engines\<close> to a filtered copy.\<close>

definition unregister_engine :: "string \<Rightarrow> orch \<Rightarrow> orch" where
  "unregister_engine engine_name s =
     s\<lparr>engines := filter (\<lambda>e. name e \<noteq> engine_name) (engines s)\<rparr>"

text \<open>
  \<^verbatim>\<open>stop\<close> and \<^verbatim>\<open>_handle_engine_error\<close> call each other: in strict mode the
  handler calls \<^verbatim>\<open>stop\<close>, whose loop calls the handler when \<^verbatim>\<open>on_shutdown\<close>
  raises. Nothing in the source bounds that recursion, so the model carries the number of
  nested \<^verbatim>\<open>stop\<close> calls still allowed, and \<open>None\<close> is the call that never comes
  back. \<open>guarded_loop\<close> is the loop that \<^verbatim>\<open>stop\<close> and \<^verbatim>\<open>_tick\<close> share:

  \<^verbatim>\<open>for engine in <list>: try: engine.<hook>(...) except Exception as e: self._handle_engine_error(engine, e)\<close>

  It walks the list it was given. In \<^verbatim>\<open>_tick\<close> that is the copy \<^verbatim>\<open>list(self.engines)\<close>;
  in \<^verbatim>\<open>stop\<close> it is the list object bound to \<^verbatim>\<open>self.engines\<close> when the loop starts,
  which \<^verbatim>\<open>unregister_engine\<close> never mutates (it rebinds the attribute). Only
  \<^verbatim>\<open>register_engine\<close> mutates that object in place, so the walk of \<^verbatim>\<open>stop\<close> is modelled
  for hooks that do not register components from inside \<^verbatim>\<open>on_shutdown\<close>; every claim
  below that involves \<^verbatim>\<open>stop\<close> is about hooks that leave the registry alone. An exception
  raised by the handler leaves the loop and the method.
\<close>

fun stop :: "nat \<Rightarrow> hooks \<Rightarrow> orch \<Rightarrow> outcome option"
  and guarded_loop :: "nat \<Rightarrow> hooks \<Rightarrow> hook_kind \<Rightarrow> engine list \<Rightarrow> orch \<Rightarrow> outcome option"
  and u_handle_engine_error :: "nat \<Rightarrow> hooks \<Rightarrow> engine \<Rightarrow> exn \<Rightarrow> orch \<Rightarrow> outcome option"
where
  "stop n hooks s = guarded_loop n hooks OnShutdown (engines s) (s\<lparr>running := False\<rparr>)"
| "guarded_loop n hooks k [] s = Some (Returned s)"
| "guarded_loop n hooks k (e # es) s =
     (case invoke hooks k e s of
        Returned s1 \<Rightarrow> guarded_loop n hooks k es s1
      | Raised x s1 \<Rightarrow>
          if is_Exception x then
            (case u_handle_engine_error n hooks e x s1 of
               None \<Rightarrow> None
             | Some (Returned s2) \<Rightarrow> guarded_loop n hooks k es s2
             | Some (Raised y s2) \<Rightarrow> Some (Raised y s2))
          else Some (Raised x s1))"
| "u_handle_engine_error n hooks e x s =
     (if strict s then
        (case n of
           0 \<Rightarrow> None
         | Suc m \<Rightarrow>
             (case stop m hooks s of
                None \<Rightarrow> None
              | Some (Returned s1) \<Rightarrow> Some (Raised x s1)
              | Some (Raised y s1) \<Rightarrow> Some (Raised y s1)))
      else Some (Returned (unregister_engine (name e) s)))"

text \<open>
  \<^verbatim>\<open>register_engine\<close>: the type check, append, stable sort by priority
  (\<^verbatim>\<open>list.sort\<close> is stable, as \<^const>\<open>sort_key\<close> is), then \<^verbatim>\<open>on_register\<close> under
  the fault policy.
\<close>

definition register_engine :: "nat \<Rightarrow> hooks \<Rightarrow> pyobject \<Rightarrow> orch \<Rightarrow> outcome option" where
  "register_engine n hooks obj s =
     (case obj of
        OtherObject \<Rightarrow> Some (Raised (TypeError ''Engine must inherit from BaseEngine'') s)
      | EngineObject e \<Rightarrow>
          (let s1 = s\<lparr>engines := engines s @ [e]\<rparr>;
               s2 = s1\<lparr>engines := sort_key priority (engines s1)\<rparr>
           in case invoke hooks OnRegister e s2 of
                Returned s3 \<Rightarrow> Some (Returned s3)
              | Raised x s3 \<Rightarrow>
                  if is_Exception x then u_handle_engine_error n hooks e x s3
                  else Some (Raised x s3)))"

text \<open>\<^verbatim>\<open>_tick\<close>: the three updates of the world state, then the loop over a copy of the registry.\<close>

definition u_tick :: "nat \<Rightarrow> hooks \<Rightarrow> orch \<Rightarrow> outcome option" where
  "u_tick n hooks s =
     (let w1 = (world_state s)\<lparr>tick := tick (world_state s) + 1\<rparr>;
          w2 = w1\<lparr>time := time w1 + tick_duration s\<rparr>;
          w3 = w2\<lparr>events := []\<rparr>;
          s1 = s\<lparr>world_state := w3\<rparr>
      in guarded_loop n hooks Step (engines s1) s1)"


text \<open>
  \<^verbatim>\<open>_run_loop\<close> and \<^verbatim>\<open>start\<close>. The wall clock is an input: the list of the values that
  successive calls of \<^verbatim>\<open>time.time()\<close> return. Each pass of the loop reads the clock once;
  a tick is due when a tick duration has elapsed since the last one, otherwise the loop
  sleeps and reads the clock again. \<open>None\<close> is a loop still running when the readings
  end. An exception that \<^verbatim>\<open>_tick\<close> raises leaves the loop and \<^verbatim>\<open>start\<close>.
\<close>

fun u_run_loop :: "nat \<Rightarrow> hooks \<Rightarrow> real list \<Rightarrow> real \<Rightarrow> orch \<Rightarrow> outcome option" where
  "u_run_loop n hooks clock last_time s =
     (if \<not> running s then Some (Returned s)
      else
        (case clock of
           [] \<Rightarrow> None
         | now # later \<Rightarrow>
             if now - last_time \<ge> tick_duration s then
               (case u_tick n hooks s of
                  None \<Rightarrow> None
                | Some (Returned s1) \<Rightarrow> u_run_loop n hooks later now s1
                | Some (Raised x s1) \<Rightarrow> Some (Raised x s1))
             else u_run_loop n hooks later last_time s))"

fun start :: "nat \<Rightarrow> hooks \<Rightarrow> real list \<Rightarrow> orch \<Rightarrow> outcome option" where
  "start n hooks [] s = None"
| "start n hooks (t0 # clock) s = u_run_loop n hooks clock t0 (s\<lparr>running := True\<rparr>)"

definition list_engines :: "orch \<Rightarrow> string list" where
  "list_engines s = map name (engines s)"


section \<open>Callers and component behaviours\<close>

text \<open>
  A caller that makes one scheduler call after the other and carries on after an exception,
  as a test harness does. \<open>None\<close> is a call that never came back.
\<close>

datatype api_call = Register pyobject | Unregister string

fun run_calls :: "nat \<Rightarrow> hooks \<Rightarrow> api_call list \<Rightarrow> orch \<Rightarrow> orch option" where
  "run_calls n hooks [] s = Some s"
| "run_calls n hooks (Register obj # cs) s =
     (case register_engine n hooks obj s of
        None \<Rightarrow> None
      | Some r \<Rightarrow> run_calls n hooks cs (state_of r))"
| "run_calls n hooks (Unregister nm # cs) s = run_calls n hooks cs (unregister_engine nm s)"


text \<open>
  Whether a caller only ever registers a component under a name that is not in the registry
  at that moment.
\<close>

fun registers_fresh_names :: "nat \<Rightarrow> hooks \<Rightarrow> api_call list \<Rightarrow> orch \<Rightarrow> bool" where
  "registers_fresh_names n hooks [] s = True"
| "registers_fresh_names n hooks (Register obj # cs) s =
     ((case obj of
         EngineObject e \<Rightarrow> name e \<notin> set (list_engines s)
       | OtherObject \<Rightarrow> True) \<and>
      (case register_engine n hooks obj s of
         None \<Rightarrow> True
       | Some r \<Rightarrow> registers_fresh_names n hooks cs (state_of r)))"
| "registers_fresh_names n hooks (Unregister nm # cs) s =
     registers_fresh_names n hooks cs (unregister_engine nm s)"

text \<open>
  Classes of component behaviour. A component written against the contract only reads and
  writes the world state it is handed: \<open>touches_world_only\<close>. \<open>never_raises\<close> says
  that one kind of hook always returns, \<open>raises_only_Exception\<close> that whatever a hook of
  that kind raises is caught by \<^verbatim>\<open>except Exception\<close>.
\<close>

definition touches_world_only :: "hooks \<Rightarrow> bool" where
  "touches_world_only hooks \<longleftrightarrow>
     (\<forall>k e s. \<exists>w. state_of (hook_body hooks k e s) = s\<lparr>world_state := w\<rparr>)"

definition never_raises :: "hooks \<Rightarrow> hook_kind \<Rightarrow> bool" where
  "never_raises hooks k \<longleftrightarrow> (\<forall>e s. raised (hook_body hooks k e s) = None)"



definition hooks_preserve :: "(orch \<Rightarrow> bool) \<Rightarrow> hooks \<Rightarrow> bool" where
  "hooks_preserve Q hooks \<longleftrightarrow> (\<forall>k e s. Q s \<longrightarrow> Q (state_of (invoke hooks k e s)))"




subsection \<open>Registration order\<close>


subsection \<open>One tick, in the words of the specification\<close>

text \<open>
  The specification's account of one tick, step by step: (1) increment the tick counter;
  (2) advance the time by the tick duration; (3) clear the events; (4) step every registered
  component in priority order, each call under the fault policy.
\<close>

definition increment_tick :: "orch \<Rightarrow> orch" where
  "increment_tick s = s\<lparr>world_state := (world_state s)\<lparr>tick := tick (world_state s) + 1\<rparr>\<rparr>"

definition advance_time :: "orch \<Rightarrow> orch" where
  "advance_time s =
     s\<lparr>world_state := (world_state s)\<lparr>time := time (world_state s) + tick_duration s\<rparr>\<rparr>"

definition clear_events :: "orch \<Rightarrow> orch" where
  "clear_events s = s\<lparr>world_state := (world_state s)\<lparr>events := []\<rparr>\<rparr>"

definition begin_tick :: "orch \<Rightarrow> orch" where
  "begin_tick s = clear_events (advance_time (increment_tick s))"


subsection \<open>Example components\<close>

definition engine_A :: engine where
  "engine_A = \<lparr>ident = 1, name = ''A'', priority = 1\<rparr>"

definition engine_B :: engine where
  "engine_B = \<lparr>ident = 2, name = ''B'', priority = 2\<rparr>"

definition engine_C :: engine where
  "engine_C = \<lparr>ident = 3, name = ''C'', priority = 2\<rparr>"

text \<open>A second object that carries the name of \<open>engine_A\<close>.\<close>

definition engine_A2 :: engine where
  "engine_A2 = \<lparr>ident = 4, name = ''A'', priority = 5\<rparr>"

text \<open>A hook body that appends a value to \<^verbatim>\<open>world_state["events"]\<close>.\<close>

definition emit :: "pyval \<Rightarrow> orch \<Rightarrow> orch" where
  "emit v s = s\<lparr>world_state := (world_state s)\<lparr>events := events (world_state s) @ [v]\<rparr>\<rparr>"

text \<open>Components whose hooks all do nothing (\<^verbatim>\<open>pass\<close>).\<close>

definition quiet_hooks :: hooks where
  "quiet_hooks =
     \<lparr>on_register = (\<lambda>e s. Returned s),
      step = (\<lambda>e dt s. Returned s),
      on_shutdown = (\<lambda>e s. Returned s)\<rparr>"

text \<open>Components that append their name to the events whenever a hook of theirs runs.\<close>

definition noting_hooks :: hooks where
  "noting_hooks =
     \<lparr>on_register = (\<lambda>e s. Returned (emit (PyStr (name e)) s)),
      step = (\<lambda>e dt s. Returned (emit (PyStr (name e)) s)),
      on_shutdown = (\<lambda>e s. Returned (emit (PyStr (name e)) s))\<rparr>"

text \<open>Components whose \<^verbatim>\<open>on_register\<close> raises.\<close>

definition failing_register_hooks :: hooks where
  "failing_register_hooks =
     quiet_hooks\<lparr>on_register := (\<lambda>e s. Raised (RuntimeError ''boom'') s)\<rparr>"

text \<open>Components whose \<^verbatim>\<open>on_shutdown\<close> raises.\<close>

definition failing_shutdown_hooks :: hooks where
  "failing_shutdown_hooks =
     quiet_hooks\<lparr>on_shutdown := (\<lambda>e s. Raised (RuntimeError ''boom'') s)\<rparr>"

text \<open>The component named B raises in \<^verbatim>\<open>step\<close>; the others note their name.\<close>

definition failing_step_hooks :: hooks where
  "failing_step_hooks =
     noting_hooks\<lparr>step := (\<lambda>e dt s.
        if name e = ''B'' then Raised (RuntimeError ''boom'') s
        else Returned (emit (PyStr (name e)) s))\<rparr>"

text \<open>
  The \<^verbatim>\<open>step\<close> of the component named A calls \<^verbatim>\<open>register_engine(engine_B)\<close> on the
  scheduler; every other \<^verbatim>\<open>step\<close> notes its name.
\<close>

definition spawning_hooks :: hooks where
  "spawning_hooks =
     quiet_hooks\<lparr>step := (\<lambda>e dt s.
        if name e = ''A'' then
          (case register_engine 0 quiet_hooks (EngineObject engine_B) s of
             Some r \<Rightarrow> r
           | None \<Rightarrow> Returned s)
        else Returned (emit (PyStr (name e)) s))\<rparr>"

text \<open>
  The \<^verbatim>\<open>step\<close> of the component named A calls \<^verbatim>\<open>unregister_engine("B")\<close> on the
  scheduler; every other \<^verbatim>\<open>step\<close> notes its name.
\<close>

definition evicting_hooks :: hooks where
  "evicting_hooks =
     quiet_hooks\<lparr>step := (\<lambda>e dt s.
        if name e = ''A'' then Returned (unregister_engine ''B'' s)
        else Returned (emit (PyStr (name e)) s))\<rparr>"

text \<open>A scheduler at 10 ticks per second with the given mode and registry.\<close>

definition scheduler_with :: "bool \<Rightarrow> engine list \<Rightarrow> orch" where
  "scheduler_with strict_mode es = (initial_state 10 strict_mode)\<lparr>engines := es\<rparr>"

section \<open>Properties of the loops and of the fault policy\<close>

text \<open>
  A state predicate that every hook preserves, that survives \<^verbatim>\<open>running = False\<close> and,
  in isolated mode, the eviction of any name, holds after \<^verbatim>\<open>stop\<close>, after the loop and
  after the handler, however they end.
\<close>

lemma inv_preserved:
  assumes halt: "\<And>s. Q s \<Longrightarrow> Q (s\<lparr>running := False\<rparr>)"
      and evict: "\<And>nm s. Q s \<Longrightarrow> \<not> strict s \<Longrightarrow> Q (unregister_engine nm s)"
  shows "hooks_preserve Q hooks \<Longrightarrow> Q s \<Longrightarrow> stop n hooks s = Some r \<Longrightarrow> Q (state_of r)"
    and "hooks_preserve Q hooks \<Longrightarrow> Q s \<Longrightarrow> guarded_loop n hooks k es s = Some r \<Longrightarrow> Q (state_of r)"
    and "hooks_preserve Q hooks \<Longrightarrow> Q s \<Longrightarrow> u_handle_engine_error n hooks e x s = Some r \<Longrightarrow> Q (state_of r)"
proof (induction n hooks s and n hooks k es s and n hooks e x s
       arbitrary: r and r and r rule: stop_guarded_loop_u_handle_engine_error.induct)
  case (1 n hooks s)
  then show ?case using halt by simp
next
  case (2 n hooks k s)
  then show ?case by auto
next
  case (3 n hooks k e es s)
  note hp = \<open>hooks_preserve Q hooks\<close>
  have q0: "Q (state_of (invoke hooks k e s))"
    using hp \<open>Q s\<close> by (simp add: hooks_preserve_def)
  show ?case
  proof (cases "invoke hooks k e s")
    case (Returned s1)
    have q1: "Q s1" using q0 Returned by simp
    from 3(6) Returned have "guarded_loop n hooks k es s1 = Some r" by simp
    from 3(1)[OF Returned hp q1 this] show ?thesis .
  next
    case (Raised y s1)
    have q1: "Q s1" using q0 Raised by simp
    show ?thesis
    proof (cases "is_Exception y")
      case False
      with Raised 3(6) have "r = Raised y s1" by simp
      with q1 show ?thesis by simp
    next
      case True
      show ?thesis
      proof (cases "u_handle_engine_error n hooks e y s1")
        case None
        with Raised True 3(6) show ?thesis by simp
      next
        case (Some h)
        have qh: "Q (state_of h)" using 3(2)[OF Raised True hp q1 Some] .
        show ?thesis
        proof (cases h)
          case (Returned s2)
          with qh have q2: "Q s2" by simp
          from 3(6) \<open>invoke hooks k e s = Raised y s1\<close> True Some Returned
          have "guarded_loop n hooks k es s2 = Some r" by simp
          from 3(3)[OF \<open>invoke hooks k e s = Raised y s1\<close> True Some Returned hp q2 this]
          show ?thesis .
        next
          case (Raised z s2)
          with \<open>invoke hooks k e s = Raised y s1\<close> True Some 3(6) have "r = h" by simp
          with qh show ?thesis by simp
        qed
      qed
    qed
  qed
next
  case (4 n hooks e x s)
  show ?case
  proof (cases "strict s")
    case False
    with 4 evict show ?thesis by auto
  next
    case True
    show ?thesis
    proof (cases n)
      case 0
      with True 4 show ?thesis by simp
    next
      case (Suc m)
      from 4(4) True Suc obtain h where h: "stop m hooks s = Some h" and rh: "state_of r = state_of h"
        by (cases "stop m hooks s"; simp del: stop.simps split: outcome.splits) auto
      from 4(1)[OF True Suc 4(2) 4(3) h] rh show ?thesis by simp
    qed
  qed
qed

text \<open>What one hook invocation does when hooks touch only the world state.\<close>

lemma invoke_world_only:
  assumes "touches_world_only hooks"
  shows "\<exists>w. state_of (invoke hooks k e s) = s\<lparr>world_state := w, calls := calls s @ [(k, e)]\<rparr>"
proof -
  from assms obtain w where
    "state_of (hook_body hooks k e (s\<lparr>calls := calls s @ [(k, e)]\<rparr>))
       = (s\<lparr>calls := calls s @ [(k, e)]\<rparr>)\<lparr>world_state := w\<rparr>"
    unfolding touches_world_only_def by blast
  then have "state_of (invoke hooks k e s) = s\<lparr>world_state := w, calls := calls s @ [(k, e)]\<rparr>"
    by (simp add: invoke_def)
  then show ?thesis by blast
qed

lemma invoke_never_raises:
  assumes "never_raises hooks k"
  shows "invoke hooks k e s = Returned (state_of (invoke hooks k e s))"
proof -
  from assms have "raised (invoke hooks k e s) = None"
    by (simp add: never_raises_def invoke_def)
  then show ?thesis by (cases "invoke hooks k e s") simp_all
qed



lemma loop_all_return:
  assumes "touches_world_only hooks" and "never_raises hooks k"
  shows "\<exists>w. guarded_loop n hooks k es s =
           Some (Returned (s\<lparr>world_state := w, calls := calls s @ map (Pair k) es\<rparr>))"
proof (induction es arbitrary: s)
  case Nil
  have "s = s\<lparr>world_state := world_state s, calls := calls s @ map (Pair k) []\<rparr>" by simp
  then show ?case by (metis guarded_loop.simps(1))
next
  case (Cons e es)
  obtain w1 where w1: "state_of (invoke hooks k e s) = s\<lparr>world_state := w1, calls := calls s @ [(k, e)]\<rparr>"
    using invoke_world_only[OF assms(1)] by blast
  let ?s1 = "s\<lparr>world_state := w1, calls := calls s @ [(k, e)]\<rparr>"
  have inv: "invoke hooks k e s = Returned ?s1"
    using invoke_never_raises[OF assms(2), of e s] w1 by simp
  from Cons[of ?s1] obtain w where
    "guarded_loop n hooks k es ?s1 =
       Some (Returned (?s1\<lparr>world_state := w, calls := calls ?s1 @ map (Pair k) es\<rparr>))" by blast
  then have "guarded_loop n hooks k (e # es) s =
       Some (Returned (s\<lparr>world_state := w, calls := calls s @ map (Pair k) (e # es)\<rparr>))"
    using inv by simp
  then show ?case by blast
qed

lemma stop_returns:
  assumes "touches_world_only hooks" and "never_raises hooks OnShutdown"
  shows "\<exists>w. stop n hooks s =
           Some (Returned (s\<lparr>running := False, world_state := w,
                             calls := calls s @ map (Pair OnShutdown) (engines s)\<rparr>))"
  using loop_all_return[OF assms, of n "engines s" "s\<lparr>running := False\<rparr>"] by simp

lemma handle_strict:
  assumes "touches_world_only hooks" and "never_raises hooks OnShutdown" and "strict s"
  shows "\<exists>w. u_handle_engine_error (Suc n) hooks e x s =
           Some (Raised x (s\<lparr>running := False, world_state := w,
                             calls := calls s @ map (Pair OnShutdown) (engines s)\<rparr>))"
proof -
  from stop_returns[OF assms(1,2), of n s] obtain w where
    "stop n hooks s = Some (Returned (s\<lparr>running := False, world_state := w,
                             calls := calls s @ map (Pair OnShutdown) (engines s)\<rparr>))" by blast
  then show ?thesis using assms(3) by (auto simp del: stop.simps)
qed





subsection \<open>Registry invariants\<close>

lemma world_only_preserve:
  assumes "touches_world_only hooks"
      and "\<And>s w c. Q s \<Longrightarrow> Q (s\<lparr>world_state := w, calls := c\<rparr>)"
  shows "hooks_preserve Q hooks"
  unfolding hooks_preserve_def
proof (intro allI impI)
  fix k e s
  assume "Q s"
  from invoke_world_only[OF assms(1), of k e s] obtain w where
    "state_of (invoke hooks k e s) = s\<lparr>world_state := w, calls := calls s @ [(k, e)]\<rparr>" by blast
  with assms(2)[OF \<open>Q s\<close>] show "Q (state_of (invoke hooks k e s))" by simp
qed

text \<open>
  With hooks that touch only the world state, a property of the registry that survives
  the eviction of any name holds after \<^verbatim>\<open>register_engine\<close> if it holds once the new
  component is inserted.
\<close>

lemma register_engine_registry:
  assumes wo: "touches_world_only hooks"
      and cl: "\<And>xs nm. P xs \<Longrightarrow> P (filter (\<lambda>e. name e \<noteq> nm) xs)"
      and ins: "P (sort_key priority (engines s @ [e]))"
      and run: "register_engine n hooks (EngineObject e) s = Some r"
  shows "P (engines (state_of r))"
proof -
  let ?Q = "\<lambda>s. P (engines s)"
  have hp: "hooks_preserve ?Q hooks"
    by (rule world_only_preserve[OF wo]) simp
  let ?s2 = "s\<lparr>engines := sort_key priority (engines s @ [e])\<rparr>"
  have q2: "?Q ?s2" using ins by simp
  have q3: "?Q (state_of (invoke hooks OnRegister e ?s2))"
    using hp q2 unfolding hooks_preserve_def by blast
  show ?thesis
  proof (cases "invoke hooks OnRegister e ?s2")
    case (Returned s3)
    with run have "r = Returned s3" by (simp add: register_engine_def Let_def)
    with q3 Returned show ?thesis by simp
  next
    case (Raised x s3)
    with q3 have q: "?Q s3" by simp
    show ?thesis
    proof (cases "is_Exception x")
      case False
      with Raised run have "r = Raised x s3" by (simp add: register_engine_def Let_def)
      with q show ?thesis by simp
    next
      case True
      with Raised run have h: "u_handle_engine_error n hooks e x s3 = Some r"
        by (simp add: register_engine_def Let_def del: u_handle_engine_error.simps)
      show ?thesis
      proof (rule inv_preserved(3)[where Q = ?Q, OF _ _ hp q h])
        show "\<And>s. P (engines s) \<Longrightarrow> P (engines (s\<lparr>running := False\<rparr>))" by simp
        show "\<And>nm s. P (engines s) \<Longrightarrow> \<not> strict s \<Longrightarrow> P (engines (unregister_engine nm s))"
          using cl by (simp add: unregister_engine_def)
      qed
    qed
  qed
qed

lemma register_other_object:
  "register_engine n hooks OtherObject s = Some r \<Longrightarrow> state_of r = s"
  by (auto simp: register_engine_def)




subsection \<open>The tick\<close>



lemma begin_tick_frame [simp]:
  "strict (begin_tick s) = strict s"
  "engines (begin_tick s) = engines s"
  "running (begin_tick s) = running s"
  "calls (begin_tick s) = calls s"
  "tick_duration (begin_tick s) = tick_duration s"
  by (simp_all add: begin_tick_def clear_events_def advance_time_def increment_tick_def)



subsection \<open>The continuous mode\<close>

lemma run_loop_stopped:
  "\<not> running s \<Longrightarrow> u_run_loop n hooks clock t s = Some (Returned s)"
  by simp

text \<open>A failure that a due tick raises is raised by \<^verbatim>\<open>start\<close>, with the state the tick left.\<close>

lemma start_raises_tick_failure:
  assumes "tick_duration s \<le> now - t0"
      and "u_tick n hooks (s\<lparr>running := True\<rparr>) = Some (Raised x s')"
  shows "start n hooks (t0 # now # clock) s = Some (Raised x s')"
  using assms by simp

subsection \<open>Calls that come back\<close>

text \<open>
  With hooks that touch only the world state and no \<^verbatim>\<open>on_shutdown\<close> raising, one level
  of nesting is enough for \<^verbatim>\<open>register_engine\<close> to come back.
\<close>

lemma register_engine_total:
  assumes "touches_world_only hooks" and "never_raises hooks OnShutdown"
  shows "\<exists>r. register_engine (Suc n) hooks obj s = Some r"
proof (cases obj)
  case OtherObject
  then show ?thesis by (simp add: register_engine_def)
next
  case (EngineObject e)
  let ?s2 = "s\<lparr>engines := sort_key priority (engines s @ [e])\<rparr>"
  show ?thesis
  proof (cases "invoke hooks OnRegister e ?s2")
    case (Returned s3)
    with EngineObject show ?thesis by (simp add: register_engine_def Let_def)
  next
    case (Raised x s3)
    show ?thesis
    proof (cases "strict s3")
      case True
      from handle_strict[OF assms True, of n e x] obtain r where
        "u_handle_engine_error (Suc n) hooks e x s3 = Some r" by blast
      with Raised EngineObject show ?thesis
        by (simp add: register_engine_def Let_def del: u_handle_engine_error.simps)
    next
      case False
      with Raised EngineObject show ?thesis
        by (simp add: register_engine_def Let_def)
    qed
  qed
qed

lemma run_calls_total:
  assumes "touches_world_only hooks" and "never_raises hooks OnShutdown"
  shows "\<exists>s'. run_calls (Suc n) hooks cs s = Some s'"
proof (induction cs arbitrary: s)
  case Nil
  show ?case by simp
next
  case (Cons c cs)
  show ?case
  proof (cases c)
    case (Unregister nm)
    with Cons show ?thesis by simp
  next
    case (Register obj)
    from register_engine_total[OF assms, of n obj s] obtain r where
      "register_engine (Suc n) hooks obj s = Some r" by blast
    with Cons[of "state_of r"] Register show ?thesis by simp
  qed
qed

section \<open>Facts about the example components\<close>

lemmas example_defs =
  scheduler_with_def initial_state_def engine_A_def engine_B_def engine_C_def engine_A2_def
  quiet_hooks_def noting_hooks_def failing_register_hooks_def failing_shutdown_hooks_def
  failing_step_hooks_def spawning_hooks_def evicting_hooks_def emit_def

lemma fresh_scheduler: "OrchestrationEngine 10 b = Inr (initial_state 10 b)"
  by (simp add: OrchestrationEngine_def)

lemma world_only_quiet: "touches_world_only quiet_hooks"
  unfolding touches_world_only_def
proof (intro allI)
  fix k e s
  have "state_of (hook_body quiet_hooks k e s) = s\<lparr>world_state := world_state s\<rparr>"
    by (cases k) (simp_all add: quiet_hooks_def)
  then show "\<exists>w. state_of (hook_body quiet_hooks k e s) = s\<lparr>world_state := w\<rparr>" by blast
qed

lemma world_only_failing_register: "touches_world_only failing_register_hooks"
  unfolding touches_world_only_def
proof (intro allI)
  fix k e s
  have "state_of (hook_body failing_register_hooks k e s) = s\<lparr>world_state := world_state s\<rparr>"
    by (cases k) (simp_all add: failing_register_hooks_def quiet_hooks_def)
  then show "\<exists>w. state_of (hook_body failing_register_hooks k e s) = s\<lparr>world_state := w\<rparr>" by blast
qed

lemma never_raises_shutdown_failing_register: "never_raises failing_register_hooks OnShutdown"
  by (simp add: never_raises_def failing_register_hooks_def quiet_hooks_def)









section \<open>The claims\<close>

subsection \<open>C1: a failing registration under strict mode\<close>

text \<open>
  Claim C1 as stated: in strict mode, after \<^verbatim>\<open>on_register\<close> raised during
  \<^verbatim>\<open>register_engine\<close>, the call raises and the component is no longer listed. On the code
  the call raises, but the component is still listed: a strict scheduler registering one
  component whose \<^verbatim>\<open>on_register\<close> raises ends with \<^verbatim>\<open>list_engines() == ["A"]\<close>.
\<close>

theorem strict_failed_registration_is_not_evicted:
  "map_option raised
     (register_engine 1 failing_register_hooks (EngineObject engine_A) (initial_state 10 True))
     = Some (Some (RuntimeError ''boom'')) \<and>
   map_option (list_engines \<circ> state_of)
     (register_engine 1 failing_register_hooks (EngineObject engine_A) (initial_state 10 True))
     = Some [''A'']"
  by (simp add: register_engine_def invoke_def list_engines_def example_defs)

text \<open>
  Claim C1, amended: in strict mode, when \<^verbatim>\<open>on_register\<close> raises an exception during
  \<^verbatim>\<open>register_engine\<close> (components touching only the world state, no \<^verbatim>\<open>on_shutdown\<close>
  raising), the scheduler is stopped, with \<^verbatim>\<open>on_shutdown\<close> called once on every registered
  component, the new one included; the call raises the original failure; and the component
  stays in the registry, at its place in priority order. Strict mode never evicts.
\<close>

theorem strict_failed_registration_stays:
  assumes "strict s" and "touches_world_only hooks" and "never_raises hooks OnShutdown"
      and "raised (on_register hooks e
             (s\<lparr>engines := sort_key priority (engines s @ [e]),
                calls := calls s @ [(OnRegister, e)]\<rparr>)) = Some x"
      and "is_Exception x"
  shows "\<exists>s'. register_engine (Suc n) hooks (EngineObject e) s = Some (Raised x s')
           \<and> name e \<in> set (list_engines s')
           \<and> engines s' = sort_key priority (engines s @ [e])
           \<and> \<not> running s'
           \<and> calls s' = calls s @ (OnRegister, e) #
                           map (Pair OnShutdown) (sort_key priority (engines s @ [e]))"
proof -
  let ?s2 = "s\<lparr>engines := sort_key priority (engines s @ [e])\<rparr>"
  obtain w1 where w1: "state_of (invoke hooks OnRegister e ?s2)
                        = ?s2\<lparr>world_state := w1, calls := calls ?s2 @ [(OnRegister, e)]\<rparr>"
    using invoke_world_only[OF assms(2)] by blast
  let ?s3 = "?s2\<lparr>world_state := w1, calls := calls ?s2 @ [(OnRegister, e)]\<rparr>"
  have "raised (invoke hooks OnRegister e ?s2) = Some x"
    using assms(4) by (simp add: invoke_def)
  with w1 have inv: "invoke hooks OnRegister e ?s2 = Raised x ?s3"
    by (cases "invoke hooks OnRegister e ?s2") simp_all
  have "strict ?s3" using assms(1) by simp
  from handle_strict[OF assms(2,3) this, of n e x] obtain w where
    h: "u_handle_engine_error (Suc n) hooks e x ?s3 =
           Some (Raised x (?s3\<lparr>running := False, world_state := w,
                              calls := calls ?s3 @ map (Pair OnShutdown) (engines ?s3)\<rparr>))"
    by blast
  let ?s' = "?s3\<lparr>running := False, world_state := w,
                 calls := calls ?s3 @ map (Pair OnShutdown) (engines ?s3)\<rparr>"
  have "register_engine (Suc n) hooks (EngineObject e) s = Some (Raised x ?s')"
    using inv h assms(5)
    by (simp add: register_engine_def Let_def del: u_handle_engine_error.simps)
  moreover have "name e \<in> set (list_engines ?s')" by (simp add: list_engines_def)
  moreover have "engines ?s' = sort_key priority (engines s @ [e])" by simp
  moreover have "\<not> running ?s'" by simp
  moreover have "calls ?s' = calls s @ (OnRegister, e) #
                           map (Pair OnShutdown) (sort_key priority (engines s @ [e]))" by simp
  ultimately show ?thesis by blast
qed

theorem strict_failed_registration_stays_witness:
  "strict (scheduler_with True [engine_B]) \<and>
   touches_world_only failing_register_hooks \<and>
   never_raises failing_register_hooks OnShutdown \<and>
   is_Exception (RuntimeError ''boom'') \<and>
   (\<exists>s'. register_engine (Suc 0) failing_register_hooks (EngineObject engine_A)
            (scheduler_with True [engine_B]) = Some (Raised (RuntimeError ''boom'') s')
        \<and> name engine_A \<in> set (list_engines s')
        \<and> engines s' = [engine_A, engine_B]
        \<and> \<not> running s'
        \<and> calls s' = [(OnRegister, engine_A), (OnShutdown, engine_A), (OnShutdown, engine_B)])"
proof -
  have 1: "strict (scheduler_with True [engine_B])" by (simp add: example_defs)
  have 4: "raised (on_register failing_register_hooks engine_A
             ((scheduler_with True [engine_B])\<lparr>engines := sort_key priority (engines (scheduler_with True [engine_B]) @ [engine_A]),
                calls := calls (scheduler_with True [engine_B]) @ [(OnRegister, engine_A)]\<rparr>)) = Some (RuntimeError ''boom'')"
    by (simp add: failing_register_hooks_def quiet_hooks_def)
  have 5: "is_Exception (RuntimeError ''boom'')" by simp
  have srt: "sort_key priority (engines (scheduler_with True [engine_B]) @ [engine_A]) = [engine_A, engine_B]"
    by (simp add: example_defs)
  have cl: "calls (scheduler_with True [engine_B]) = []" by (simp add: example_defs)
  from strict_failed_registration_stays[OF 1 world_only_failing_register
        never_raises_shutdown_failing_register 4 5, of 0]
  show ?thesis
    using 1 world_only_failing_register never_raises_shutdown_failing_register
    unfolding srt cl by simp
qed

subsection \<open>C2: changes of the registry during a tick\<close>




subsection \<open>C3: a failing shutdown hook under strict mode\<close>

lemma invoke_failing_shutdown:
  "invoke failing_shutdown_hooks OnShutdown e s =
     Raised (RuntimeError ''boom'') (s\<lparr>calls := calls s @ [(OnShutdown, e)]\<rparr>)"
  by (simp add: invoke_def failing_shutdown_hooks_def quiet_hooks_def)

lemma failing_shutdown_diverges:
  "strict s \<Longrightarrow> engines s \<noteq> [] \<Longrightarrow> stop n failing_shutdown_hooks s = None"
proof (induction n arbitrary: s)
  case 0
  then obtain e es where "engines s = e # es" by (cases "engines s") auto
  with 0 show ?case by (simp add: invoke_failing_shutdown)
next
  case (Suc n)
  then obtain e es where es: "engines s = e # es" by (cases "engines s") auto
  let ?s1 = "s\<lparr>running := False, calls := calls s @ [(OnShutdown, e)]\<rparr>"
  have "stop n failing_shutdown_hooks ?s1 = None"
    using Suc.prems es by (intro Suc.IH) simp_all
  then have "u_handle_engine_error (Suc n) failing_shutdown_hooks e (RuntimeError ''boom'') ?s1 = None"
    using Suc.prems(1) by (simp del: stop.simps)
  then have "guarded_loop (Suc n) failing_shutdown_hooks OnShutdown (e # es) (s\<lparr>running := False\<rparr>) = None"
    by (simp add: invoke_failing_shutdown del: u_handle_engine_error.simps)
  then show ?case using es by simp
qed

text \<open>
  Claim C3 says that under strict mode a failure of \<^verbatim>\<open>on_shutdown\<close> during \<^verbatim>\<open>stop\<close> is
  handled without a nested \<^verbatim>\<open>stop\<close>, so that stopping always ends. The code has no such
  guard: the handler calls \<^verbatim>\<open>stop\<close> again, which calls the same hook again. On a strict
  scheduler that has registered one component whose \<^verbatim>\<open>on_shutdown\<close> raises, \<^verbatim>\<open>stop\<close>
  does not come back within any number \<open>n\<close> of nested calls.
\<close>

theorem stop_never_returns:
  "run_calls 0 failing_shutdown_hooks [Register (EngineObject engine_A)] (initial_state 10 True)
     = Some ((initial_state 10 True)\<lparr>engines := [engine_A], calls := [(OnRegister, engine_A)]\<rparr>) \<and>
   stop n failing_shutdown_hooks
     ((initial_state 10 True)\<lparr>engines := [engine_A], calls := [(OnRegister, engine_A)]\<rparr>) = None"
proof
  show "run_calls 0 failing_shutdown_hooks [Register (EngineObject engine_A)] (initial_state 10 True)
     = Some ((initial_state 10 True)\<lparr>engines := [engine_A], calls := [(OnRegister, engine_A)]\<rparr>)"
    by (simp add: register_engine_def invoke_def example_defs)
  show "stop n failing_shutdown_hooks
     ((initial_state 10 True)\<lparr>engines := [engine_A], calls := [(OnRegister, engine_A)]\<rparr>) = None"
    by (rule failing_shutdown_diverges) (simp_all add: initial_state_def)
qed

subsection \<open>C4: names in the registry\<close>

lemma distinct_names_insert:
  assumes "distinct (map name xs)" and "name e \<notin> name ` set xs"
  shows "distinct (map name (sort_key priority (xs @ [e])))"
proof -
  have "mset (map name (sort_key priority (xs @ [e]))) = mset (map name (xs @ [e]))"
    by simp
  then have "distinct (map name (sort_key priority (xs @ [e]))) = distinct (map name (xs @ [e]))"
    by (rule mset_eq_imp_distinct_iff)
  with assms show ?thesis by simp
qed

text \<open>
  Claim C4 as stated: after every sequence of \<^verbatim>\<open>register_engine\<close> and
  \<^verbatim>\<open>unregister_engine\<close> calls no two registered components carry the same name. The code
  never compares names on registration: two components named A, registered one after the
  other, are both in the registry.
\<close>

theorem same_name_registered_twice:
  "map_option list_engines
     (run_calls 0 quiet_hooks
        [Register (EngineObject engine_A), Register (EngineObject engine_A2)]
        (initial_state 10 True)) = Some [''A'', ''A''] \<and>
   \<not> distinct [''A'', ''A'']"
  by (simp add: register_engine_def invoke_def list_engines_def example_defs)

text \<open>
  Claim C4, amended: \<^verbatim>\<open>register_engine\<close> accepts a name that is already registered, so
  uniqueness is the caller's part. For every sequence of \<^verbatim>\<open>register_engine\<close> and
  \<^verbatim>\<open>unregister_engine\<close> calls that registers a component only under a name not in the
  registry at that moment (components touching only the world state), and from a registry
  with distinct names, no two registered components share a name afterwards.
\<close>

theorem names_distinct_when_registered_fresh:
  assumes "touches_world_only hooks"
  shows "distinct (list_engines s) \<Longrightarrow> registers_fresh_names n hooks cs s
         \<Longrightarrow> run_calls n hooks cs s = Some s' \<Longrightarrow> distinct (list_engines s')"
proof (induction cs arbitrary: s)
  case Nil
  then show ?case by simp
next
  case (Cons c cs)
  show ?case
  proof (cases c)
    case (Unregister nm)
    have "distinct (list_engines (unregister_engine nm s))"
      using Cons.prems(1) by (simp add: list_engines_def unregister_engine_def distinct_map_filter)
    from Cons.IH[OF this] Cons.prems(2,3) Unregister show ?thesis by simp
  next
    case (Register obj)
    from Cons.prems(3) Register obtain r where
      r: "register_engine n hooks obj s = Some r"
      and rest: "run_calls n hooks cs (state_of r) = Some s'"
      by (auto split: option.splits)
    from Cons.prems(2) Register r have fr: "registers_fresh_names n hooks cs (state_of r)"
      by simp
    have "distinct (list_engines (state_of r))"
    proof (cases obj)
      case OtherObject
      with r have "state_of r = s" by (simp add: register_other_object)
      with Cons.prems(1) show ?thesis by simp
    next
      case (EngineObject e)
      from Cons.prems(2) Register EngineObject have "name e \<notin> set (list_engines s)" by simp
      then have new: "name e \<notin> name ` set (engines s)" by (simp add: list_engines_def)
      have "distinct (map name (engines (state_of r)))"
      proof (rule register_engine_registry[OF assms(1) _ _ r[unfolded EngineObject]])
        show "\<And>xs nm. distinct (map name xs) \<Longrightarrow>
                 distinct (map name (filter (\<lambda>e. name e \<noteq> nm) xs))"
          by (rule distinct_map_filter)
        show "distinct (map name (sort_key priority (engines s @ [e])))"
          using Cons.prems(1) new by (intro distinct_names_insert) (simp_all add: list_engines_def)
      qed
      then show ?thesis by (simp add: list_engines_def)
    qed
    from Cons.IH[OF this fr rest] show ?thesis .
  qed
qed

theorem names_distinct_when_registered_fresh_witness:
  "touches_world_only quiet_hooks \<and>
   distinct (list_engines (initial_state 10 True)) \<and>
   registers_fresh_names 0 quiet_hooks
     [Register (EngineObject engine_A), Unregister ''A'', Register (EngineObject engine_A2),
      Register (EngineObject engine_B)]
     (initial_state 10 True) \<and>
   run_calls 0 quiet_hooks
     [Register (EngineObject engine_A), Unregister ''A'', Register (EngineObject engine_A2),
      Register (EngineObject engine_B)]
     (initial_state 10 True)
     = Some ((initial_state 10 True)
         \<lparr>engines := [engine_B, engine_A2],
          calls := [(OnRegister, engine_A), (OnRegister, engine_A2), (OnRegister, engine_B)]\<rparr>) \<and>
   distinct (list_engines ((initial_state 10 True)
         \<lparr>engines := [engine_B, engine_A2],
          calls := [(OnRegister, engine_A), (OnRegister, engine_A2), (OnRegister, engine_B)]\<rparr>))"
proof -
  have d: "distinct (list_engines (initial_state 10 True))"
    by (simp add: list_engines_def initial_state_def)
  have f: "registers_fresh_names 0 quiet_hooks
     [Register (EngineObject engine_A), Unregister ''A'', Register (EngineObject engine_A2),
      Register (EngineObject engine_B)]
     (initial_state 10 True)"
    by (simp add: register_engine_def unregister_engine_def invoke_def list_engines_def
          example_defs)
  have run: "run_calls 0 quiet_hooks
     [Register (EngineObject engine_A), Unregister ''A'', Register (EngineObject engine_A2),
      Register (EngineObject engine_B)]
     (initial_state 10 True)
     = Some ((initial_state 10 True)
         \<lparr>engines := [engine_B, engine_A2],
          calls := [(OnRegister, engine_A), (OnRegister, engine_A2), (OnRegister, engine_B)]\<rparr>)"
    by (simp add: register_engine_def unregister_engine_def invoke_def example_defs)
  from names_distinct_when_registered_fresh[OF world_only_quiet d f run]
  show ?thesis using world_only_quiet d f run by simp
qed

subsection \<open>C5: calling stop twice\<close>




subsection \<open>C6: a failing step under strict mode\<close>



subsection \<open>C7: a failing step under isolated mode\<close>



subsection \<open>C8: what one tick does\<close>



subsection \<open>C9: the order of the registry\<close>



subsection \<open>C10: the accessor of the world state\<close>


end
